theory Spec2Isabelle
  imports Complex_Main
begin

section \<open>Data model of the claim flow (components/bootstrapViews/Claim.tsx)\<close>

text \<open>
  Addresses, ids and names are JavaScript strings. A JavaScript \<open>number\<close> is modelled as an
  exact rational: the rounding of IEEE doubles, NaN and the infinities are outside the model.
  A \<open>bigint\<close> is an unbounded \<open>int\<close>.
\<close>

type_synonym TAddress = string

record TNormalizedBN =
  raw :: int
  normalized :: rat

text \<open>
  Modelled from the spec: the declarations of the token info (contexts/useTokenList) and of
  the incentive history, the vote data and the claimed incentives (contexts/useBootstrap)
  are not among the sources. The records \<open>TTokenInfo\<close>, \<open>TIncentives\<close>,
  \<open>TGroupedIncentives\<close>, \<open>TClaimed\<close>, \<open>TWhitelistedLST\<close> and \<open>TVoteData\<close> hold the
  fields that the spec names and Claim.tsx reads, with the types of their use there: the
  value of an incentive is a number, its amount and the votes are bigints.
\<close>

record TTokenInfo =
  address_tok :: TAddress
  symbol :: string
  decimals :: nat

record TIncentives =
  protocolName_inc :: string
  incentive_inc :: TAddress
  value_inc :: rat
  amount_inc :: int
  incentiveToken_inc :: "TTokenInfo option"

record TGroupedIncentives =
  incentives :: "TIncentives list"

text \<open>
  The call payload is the result of viem's \<open>encodeFunctionData\<close>: it is kept symbolic, as
  the function name with its arguments.
\<close>

datatype Hex = EncodeFunctionData string "TAddress list"

record TMulticall =
  target :: TAddress
  callData :: Hex

record TClaimDetails =
  id_cd :: string
  protocolName_cd :: string
  value_cd :: rat
  amount_cd :: TNormalizedBN
  token_cd :: "TTokenInfo option"
  isSelected :: bool
  multicall_cd :: TMulticall

record TClaimed =
  id_claimed :: string

record TWhitelistedLST =
  extra_votes :: "int option"

record TVoteData =
  winners :: "TAddress list"
  votesUsed :: TNormalizedBN

text \<open>What the component reads from its hooks (\<open>useWeb3\<close>, \<open>useBootstrap\<close>).\<close>

record TClaimDeps =
  address :: "string option"
  whitelistedLST :: "TWhitelistedLST list"
  voteData :: TVoteData
  protocols :: "TAddress \<rightharpoonup> TGroupedIncentives"
  claimedIncentives :: "TClaimed list option"

text \<open>The two pieces of component state the aggregation writes.\<close>

record TClaimState =
  claimableIncentive :: "TClaimDetails list"
  totalIncentiveValue :: rat

datatype error = RangeError

section \<open>Library helpers\<close>

text \<open>
  \<open>toNormalizedBN(value, decimals)\<close> of the web-lib keeps the raw amount and divides it by
  \<open>10 ^ decimals\<close> for the normalized figure.
\<close>

definition toNormalizedBN :: "int \<Rightarrow> nat \<Rightarrow> TNormalizedBN" where
  "toNormalizedBN v d = \<lparr>raw = v, normalized = of_int v / 10 ^ d\<rparr>"

text \<open>
  Division of two bigints truncates towards zero and throws a RangeError when the divisor
  is \<open>0n\<close>.
\<close>

definition bigint_div :: "int \<Rightarrow> int \<Rightarrow> error + int" where
  "bigint_div a b =
     (if b = 0 then Inl RangeError else Inr (sgn a * sgn b * (\<bar>a\<bar> div \<bar>b\<bar>)))"

text \<open>\<open>Array.prototype.findIndex\<close>, with \<open>None\<close> for \<open>-1\<close>.\<close>

fun findIndex :: "('a \<Rightarrow> bool) \<Rightarrow> 'a list \<Rightarrow> nat option" where
  "findIndex P [] = None"
| "findIndex P (x # xs) =
     (if P x then Some 0 else map_option Suc (findIndex P xs))"

section \<open>The aggregation of claimable incentives\<close>

text \<open>The memoised sum of the votes over the whitelisted LSTs (\<open>votes || 0n\<close>).\<close>

definition votes_or_0 :: "TWhitelistedLST \<Rightarrow> int" where
  "votes_or_0 item = (case extra_votes item of None \<Rightarrow> 0 | Some v \<Rightarrow> v)"

definition totalVotes :: "TWhitelistedLST list \<Rightarrow> TNormalizedBN" where
  "totalVotes lst = toNormalizedBN (foldl (\<lambda>sum item. sum + votes_or_0 item) 0 lst) 18"

text \<open>
  The three constants computed for one incentive of one protocol. \<open>toAddress\<close> of the web-lib
  is a parameter \<open>tA\<close>; it is applied to a value that may be undefined.
\<close>

definition valueOfThis :: "TNormalizedBN \<Rightarrow> TNormalizedBN \<Rightarrow> TIncentives \<Rightarrow> rat" where
  "valueOfThis vu tv incentive =
     value_inc incentive
       * (if normalized vu = 0 then 0 else normalized vu)
       / normalized tv"

definition decimals_or_18 :: "TIncentives \<Rightarrow> nat" where
  "decimals_or_18 incentive =
     (case incentiveToken_inc incentive of
        None \<Rightarrow> 18
      | Some t \<Rightarrow> if decimals t = 0 then 18 else decimals t)"

definition amountOfThis :: "TNormalizedBN \<Rightarrow> TNormalizedBN \<Rightarrow> TIncentives \<Rightarrow> error + TNormalizedBN" where
  "amountOfThis vu tv incentive =
     (case bigint_div (amount_inc incentive * raw vu) (raw tv) of
        Inl e \<Rightarrow> Inl e
      | Inr q \<Rightarrow> Inr (toNormalizedBN q (decimals_or_18 incentive)))"

definition id_of :: "(string option \<Rightarrow> TAddress) \<Rightarrow> string option \<Rightarrow> TAddress \<Rightarrow> TIncentives \<Rightarrow> string" where
  "id_of tA addr protocol incentive =
     protocol @ ''-'' @ incentive_inc incentive @ ''-'' @ tA addr"

definition claimDetails ::
  "(string option \<Rightarrow> TAddress) \<Rightarrow> string option \<Rightarrow> string option \<Rightarrow> TAddress \<Rightarrow> TIncentives
     \<Rightarrow> rat \<Rightarrow> TNormalizedBN \<Rightarrow> TClaimDetails" where
  "claimDetails tA bootstrap addr protocol incentive v a =
     \<lparr>id_cd = id_of tA addr protocol incentive,
      protocolName_cd = protocolName_inc incentive,
      value_cd = v,
      amount_cd = a,
      token_cd = incentiveToken_inc incentive,
      isSelected = True,
      multicall_cd =
        \<lparr>target = tA bootstrap,
         callData = EncodeFunctionData ''claim_incentive''
           [tA (Some protocol), tA (Some (incentive_inc incentive)), tA addr]\<rparr>\<rparr>"

text \<open>
  The body of the inner loop. The accumulator is the pair of \<open>claimData\<close> and
  \<open>_totalIncentiveValue\<close>; \<open>claimed\<close> is the list of the claimed incentives.
\<close>

definition processIncentive ::
  "(string option \<Rightarrow> TAddress) \<Rightarrow> string option \<Rightarrow> string option \<Rightarrow> TNormalizedBN \<Rightarrow> TNormalizedBN
     \<Rightarrow> TClaimed list \<Rightarrow> TAddress \<Rightarrow> TIncentives
     \<Rightarrow> TClaimDetails list \<times> rat \<Rightarrow> error + TClaimDetails list \<times> rat" where
  "processIncentive tA bootstrap addr vu tv claimed protocol incentive acc =
     (let v = valueOfThis vu tv incentive in
      case amountOfThis vu tv incentive of
        Inl e \<Rightarrow> Inl e
      | Inr a \<Rightarrow>
          (let i = id_of tA addr protocol incentive in
           if find (\<lambda>item. id_cd item = i) (fst acc) \<noteq> None then Inr acc
           else if find (\<lambda>item. id_claimed item = i) claimed \<noteq> None
             then Inr (fst acc, snd acc + v)
           else Inr (fst acc @ [claimDetails tA bootstrap addr protocol incentive v a],
                     snd acc + v)))"

fun incentivesLoop ::
  "(string option \<Rightarrow> TAddress) \<Rightarrow> string option \<Rightarrow> string option \<Rightarrow> TNormalizedBN \<Rightarrow> TNormalizedBN
     \<Rightarrow> TClaimed list \<Rightarrow> TAddress \<Rightarrow> TIncentives list
     \<Rightarrow> TClaimDetails list \<times> rat \<Rightarrow> error + TClaimDetails list \<times> rat" where
  "incentivesLoop tA bootstrap addr vu tv claimed protocol [] acc = Inr acc"
| "incentivesLoop tA bootstrap addr vu tv claimed protocol (incentive # rest) acc =
     (case processIncentive tA bootstrap addr vu tv claimed protocol incentive acc of
        Inl e \<Rightarrow> Inl e
      | Inr acc' \<Rightarrow> incentivesLoop tA bootstrap addr vu tv claimed protocol rest acc')"

fun winnersLoop ::
  "(string option \<Rightarrow> TAddress) \<Rightarrow> string option \<Rightarrow> string option \<Rightarrow> TNormalizedBN \<Rightarrow> TNormalizedBN
     \<Rightarrow> TClaimed list \<Rightarrow> (TAddress \<rightharpoonup> TGroupedIncentives) \<Rightarrow> TAddress list
     \<Rightarrow> TClaimDetails list \<times> rat \<Rightarrow> error + TClaimDetails list \<times> rat" where
  "winnersLoop tA bootstrap addr vu tv claimed ps [] acc = Inr acc"
| "winnersLoop tA bootstrap addr vu tv claimed ps (protocol # rest) acc =
     (case ps protocol of
        None \<Rightarrow> winnersLoop tA bootstrap addr vu tv claimed ps rest acc
      | Some incentivesForThisProtocol \<Rightarrow>
          (case incentivesLoop tA bootstrap addr vu tv claimed protocol
                  (incentives incentivesForThisProtocol) acc of
             Inl e \<Rightarrow> Inl e
           | Inr acc' \<Rightarrow> winnersLoop tA bootstrap addr vu tv claimed ps rest acc'))"

text \<open>
  The effect itself: it leaves the state as it is when no vote was cast or when the claimed
  incentives are not loaded, and otherwise stores the result of the loops.
\<close>

definition claimEffect ::
  "(string option \<Rightarrow> TAddress) \<Rightarrow> string option \<Rightarrow> TClaimDeps \<Rightarrow> TClaimState \<Rightarrow> error + TClaimState" where
  "claimEffect tA bootstrap d st =
     (let tv = totalVotes (whitelistedLST d) in
      if raw tv = 0 then Inr st
      else case claimedIncentives d of
        None \<Rightarrow> Inr st
      | Some claimed \<Rightarrow>
          (case winnersLoop tA bootstrap (address d) (votesUsed (voteData d)) tv claimed
                  (protocols d) (winners (voteData d)) ([], 0) of
             Inl e \<Rightarrow> Inl e
           | Inr acc \<Rightarrow> Inr \<lparr>claimableIncentive = fst acc, totalIncentiveValue = snd acc\<rparr>))"

section \<open>The confirmation modal and the selection of incentives\<close>

text \<open>The total shown by the Claim view: the sum of the values of all the claimable incentives.\<close>

definition totalToClaim :: "TClaimDetails list \<Rightarrow> rat" where
  "totalToClaim cs = foldl (\<lambda>total incentive. total + value_cd incentive) 0 cs"

text \<open>The total shown by the modal: the sum over the selected incentives only.\<close>

definition totalToClaim_modal :: "TClaimDetails list \<Rightarrow> rat" where
  "totalToClaim_modal cs =
     foldl (\<lambda>total incentive. total + value_cd incentive) 0 (filter isSelected cs)"

text \<open>
  \<open>onClaim\<close> hands a request to the multicall action: the contract address and the batch of
  calls. The request is what the model returns.
\<close>

record TMulticallRequest =
  contractAddress :: TAddress
  multicallData :: "TMulticall list"

definition onClaim ::
  "(string option \<Rightarrow> TAddress) \<Rightarrow> string option \<Rightarrow> TClaimDetails list \<Rightarrow> TMulticallRequest" where
  "onClaim tA bootstrap cs =
     \<lparr>contractAddress = tA bootstrap,
      multicallData = map multicall_cd (filter isSelected cs)\<rparr>"

text \<open>
  \<open>onUpdateIncentive\<close> copies the array, looks the id up and sets the flag of the record
  found. Every record of the list is an object of its own (the aggregation pushes a fresh
  one each time), so the list is modelled by value.
\<close>

definition onUpdateIncentive :: "string \<Rightarrow> bool \<Rightarrow> TClaimDetails list \<Rightarrow> TClaimDetails list" where
  "onUpdateIncentive i sel cs =
     (case findIndex (\<lambda>item. id_cd item = i) cs of
        None \<Rightarrow> cs
      | Some index \<Rightarrow> cs[index := (cs ! index)\<lparr>isSelected := sel\<rparr>])"

text \<open>
  The states of the Claim component: the initial one, and those reached by running the
  effect on some data or by ticking a checkbox of the modal.
\<close>

inductive reachable :: "(string option \<Rightarrow> TAddress) \<Rightarrow> string option \<Rightarrow> TClaimState \<Rightarrow> bool" where
  initial: "reachable tA bootstrap \<lparr>claimableIncentive = [], totalIncentiveValue = 0\<rparr>"
| effect: "reachable tA bootstrap st \<Longrightarrow> claimEffect tA bootstrap d st = Inr st'
     \<Longrightarrow> reachable tA bootstrap st'"
| update: "reachable tA bootstrap st
     \<Longrightarrow> reachable tA bootstrap
           (st\<lparr>claimableIncentive := onUpdateIncentive i sel (claimableIncentive st)\<rparr>)"

section \<open>The tabs of the main page and the query of the URL\<close>

record tab =
  value_tab :: nat
  label :: string
  slug :: string

definition tabs :: "tab list" where
  "tabs =
     [\<lparr>value_tab = 0, label = ''Deposit'', slug = ''deposit''\<rparr>,
      \<lparr>value_tab = 1, label = ''Withdraw'', slug = ''withdraw''\<rparr>,
      \<lparr>value_tab = 2, label = ''Stake/Unstake'', slug = ''stake-unstake''\<rparr>,
      \<lparr>value_tab = 3, label = ''Swap'', slug = ''swap''\<rparr>]"

text \<open>\<open>String.prototype.split\<close> with a separator of one character.\<close>

fun split :: "char \<Rightarrow> string \<Rightarrow> string list" where
  "split c [] = [] # []"
| "split c (x # xs) =
     (if x = c then [] # split c xs
      else case split c xs of
        [] \<Rightarrow> [x] # []
      | p # ps \<Rightarrow> (x # p) # ps)"

text \<open>Reading an array at an index: \<open>None\<close> stands for \<open>undefined\<close>.\<close>

definition at_index :: "'a list \<Rightarrow> nat \<Rightarrow> 'a option" where
  "at_index xs i = (if i < length xs then Some (xs ! i) else None)"

text \<open>\<open>toLowerCase\<close> on the ASCII range, which is what a path of the router holds.\<close>

definition toLowerCase_char :: "char \<Rightarrow> char" where
  "toLowerCase_char c =
     (if 65 \<le> (of_char c :: nat) \<and> (of_char c :: nat) \<le> 90
      then char_of (of_char c + 32 :: nat) else c)"

definition toLowerCase :: "string \<Rightarrow> string" where
  "toLowerCase s = map toLowerCase_char s"

text \<open>
  The mount effect of the page, as a function from the path and the current tab to the tab
  after it. When the path has no \<open>?\<close>, the action is an object without \<open>split\<close> and
  nothing happens.
\<close>

definition mountEffect :: "string \<Rightarrow> tab \<Rightarrow> tab" where
  "mountEffect asPath currentTab =
     (case at_index (split CHR ''?'' asPath) 1 of
        None \<Rightarrow> currentTab
      | Some action \<Rightarrow>
          (let actionType = (case at_index (split CHR ''='' action) 1 of
                               None \<Rightarrow> []
                             | Some a \<Rightarrow> a)
           in if actionType \<noteq> [] then
                (let tabLabel = toLowerCase actionType in
                 case findIndex (\<lambda>tab. slug tab = tabLabel) tabs of
                   None \<Rightarrow> currentTab
                 | Some tabValue \<Rightarrow> tabs ! tabValue)
              else currentTab))"

text \<open>The tab shown first: the state starts at \<open>tabs[0]\<close> and the mount effect runs once.\<close>

definition initialTab :: "string \<Rightarrow> tab" where
  "initialTab asPath = mountEffect asPath (tabs ! 0)"

section \<open>The value of the claimed incentives\<close>

text \<open>
  The sum of the pro-rata values of the incentives of one protocol, and of all the winners,
  whose id is in the list of the claimed incentives. Every occurrence counts.
\<close>

definition valueOfClaimed ::
  "(string option \<Rightarrow> TAddress) \<Rightarrow> string option \<Rightarrow> TNormalizedBN \<Rightarrow> TNormalizedBN
     \<Rightarrow> TClaimed list \<Rightarrow> TAddress \<Rightarrow> TIncentives list \<Rightarrow> rat" where
  "valueOfClaimed tA addr vu tv claimed protocol incs =
     sum_list (map (valueOfThis vu tv)
       (filter (\<lambda>inc. id_of tA addr protocol inc \<in> id_claimed ` set claimed) incs))"

definition valueOfClaimedWinners ::
  "(string option \<Rightarrow> TAddress) \<Rightarrow> string option \<Rightarrow> TNormalizedBN \<Rightarrow> TNormalizedBN
     \<Rightarrow> TClaimed list \<Rightarrow> (TAddress \<rightharpoonup> TGroupedIncentives) \<Rightarrow> TAddress list \<Rightarrow> rat" where
  "valueOfClaimedWinners tA addr vu tv claimed ps ws =
     sum_list (map (\<lambda>protocol. case ps protocol of
                      None \<Rightarrow> 0
                    | Some g \<Rightarrow> valueOfClaimed tA addr vu tv claimed protocol (incentives g)) ws)"

section \<open>Concrete inputs\<close>

text \<open>
  A stand-in for \<open>toAddress\<close>, the initial state of the component, and the data of some
  runs of the aggregation, on which the theorems below are evaluated.
\<close>

definition toAddress_ex :: "string option \<Rightarrow> TAddress" where
  "toAddress_ex a = (case a of None \<Rightarrow> ''0x0'' | Some s \<Rightarrow> s)"

definition state_initial :: TClaimState where
  "state_initial = \<lparr>claimableIncentive = [], totalIncentiveValue = 0\<rparr>"

definition incentive_ex :: "TAddress \<Rightarrow> rat \<Rightarrow> int \<Rightarrow> TIncentives" where
  "incentive_ex t v a =
     \<lparr>protocolName_inc = ''Lido'', incentive_inc = t, value_inc = v, amount_inc = a,
      incentiveToken_inc = None\<rparr>"

text \<open>One winner with one incentive worth 1000, 100 votes in total, 25 used.\<close>

definition deps_one :: TClaimDeps where
  "deps_one =
     \<lparr>address = Some ''0xU'',
      whitelistedLST = [\<lparr>extra_votes = Some (60 * 10 ^ 18)\<rparr>, \<lparr>extra_votes = None\<rparr>,
                        \<lparr>extra_votes = Some (40 * 10 ^ 18)\<rparr>],
      voteData = \<lparr>winners = [''0xP1''], votesUsed = toNormalizedBN (25 * 10 ^ 18) 18\<rparr>,
      protocols = [''0xP1'' \<mapsto> \<lparr>incentives = [incentive_ex ''0xT1'' 1000 (8 * 10 ^ 18)]\<rparr>],
      claimedIncentives = Some []\<rparr>"

text \<open>
  Three winners, the second without incentive history; the first offers the same token
  twice and a token that is claimed already.
\<close>

definition deps_ex :: TClaimDeps where
  "deps_ex =
     \<lparr>address = Some ''0xU'',
      whitelistedLST = [\<lparr>extra_votes = Some (60 * 10 ^ 18)\<rparr>, \<lparr>extra_votes = None\<rparr>,
                        \<lparr>extra_votes = Some (40 * 10 ^ 18)\<rparr>],
      voteData = \<lparr>winners = [''0xP1'', ''0xP0'', ''0xP2''],
                  votesUsed = toNormalizedBN (25 * 10 ^ 18) 18\<rparr>,
      protocols = [''0xP1'' \<mapsto> \<lparr>incentives = [incentive_ex ''0xT1'' 1000 (8 * 10 ^ 18),
                                                 incentive_ex ''0xT1'' 500 (4 * 10 ^ 18),
                                                 incentive_ex ''0xT2'' 200 7]\<rparr>,
                   ''0xP2'' \<mapsto> \<lparr>incentives = [incentive_ex ''0xT3'' 40 (10 ^ 6)]\<rparr>],
      claimedIncentives = Some [\<lparr>id_claimed = ''0xP1-0xT2-0xU''\<rparr>]\<rparr>"

definition claim_ex :: "TAddress \<Rightarrow> TAddress \<Rightarrow> rat \<Rightarrow> TNormalizedBN \<Rightarrow> bool \<Rightarrow> TClaimDetails" where
  "claim_ex p t v a sel =
     \<lparr>id_cd = p @ ''-'' @ t @ ''-0xU'', protocolName_cd = ''Lido'', value_cd = v,
      amount_cd = a, token_cd = None, isSelected = sel,
      multicall_cd = \<lparr>target = ''0x0'',
                      callData = EncodeFunctionData ''claim_incentive'' [p, t, ''0xU'']\<rparr>\<rparr>"

text \<open>The state after the effect has run on \<open>deps_ex\<close>.\<close>

definition state_ex :: TClaimState where
  "state_ex =
     \<lparr>claimableIncentive =
        [claim_ex ''0xP1'' ''0xT1'' 250 \<lparr>raw = 2 * 10 ^ 18, normalized = 2\<rparr> True,
         claim_ex ''0xP2'' ''0xT3'' 10 \<lparr>raw = 250000, normalized = 1 / 4000000000000\<rparr> True],
      totalIncentiveValue = 310\<rparr>"

text \<open>One winner with one incentive worth 1 and of 3 raw units; 2 votes in total, 1 used.\<close>

definition deps_half :: TClaimDeps where
  "deps_half =
     \<lparr>address = Some ''0xU'',
      whitelistedLST = [\<lparr>extra_votes = Some (2 * 10 ^ 18)\<rparr>],
      voteData = \<lparr>winners = [''0xP1''], votesUsed = toNormalizedBN (10 ^ 18) 18\<rparr>,
      protocols = [''0xP1'' \<mapsto> \<lparr>incentives = [incentive_ex ''0xT1'' 1 3]\<rparr>],
      claimedIncentives = Some []\<rparr>"

text \<open>
  The claimable value as the specification words it: computed like the amount, in integer
  arithmetic on the raw units. It is compared with \<open>valueOfThis\<close> below.
\<close>

definition valueOfThis_spec :: "TNormalizedBN \<Rightarrow> TNormalizedBN \<Rightarrow> int \<Rightarrow> error + rat" where
  "valueOfThis_spec vu tv v =
     (case bigint_div (v * raw vu) (raw tv) of
        Inl e \<Rightarrow> Inl e
      | Inr q \<Rightarrow> Inr (of_int q))"

text \<open>The data of \<open>deps_one\<close> when no vote has been cast.\<close>

definition deps_zero :: TClaimDeps where
  "deps_zero = deps_one\<lparr>whitelistedLST := [\<lparr>extra_votes = None\<rparr>, \<lparr>extra_votes = Some 0\<rparr>]\<rparr>"

section \<open>The loops: they finish, and they keep an invariant of every step\<close>

lemma processIncentive_ok:
  "raw tv \<noteq> 0 \<Longrightarrow> \<exists>acc'. processIncentive tA b addr vu tv cl p inc acc = Inr acc'"
  by (simp add: processIncentive_def amountOfThis_def bigint_div_def Let_def)

lemma incentivesLoop_ok:
  "raw tv \<noteq> 0 \<Longrightarrow> \<exists>acc'. incentivesLoop tA b addr vu tv cl p incs acc = Inr acc'"
proof (induction incs arbitrary: acc)
  case Nil
  show ?case by simp
next
  case (Cons inc incs)
  obtain a where a: "processIncentive tA b addr vu tv cl p inc acc = Inr a"
    using processIncentive_ok [OF Cons.prems] by blast
  show ?case using Cons.IH [OF Cons.prems, of a] by (simp add: a)
qed

lemma winnersLoop_ok:
  "raw tv \<noteq> 0 \<Longrightarrow> \<exists>acc'. winnersLoop tA b addr vu tv cl ps ws acc = Inr acc'"
proof (induction ws arbitrary: acc)
  case Nil
  show ?case by simp
next
  case (Cons w ws)
  show ?case
  proof (cases "ps w")
    case None
    then show ?thesis using Cons.IH [OF Cons.prems, of acc] by simp
  next
    case (Some g)
    obtain a where a: "incentivesLoop tA b addr vu tv cl w (incentives g) acc = Inr a"
      using incentivesLoop_ok [OF Cons.prems] by blast
    show ?thesis using Cons.IH [OF Cons.prems, of a] by (simp add: Some a)
  qed
qed

lemma incentivesLoop_invariant:
  assumes "incentivesLoop tA b addr vu tv cl p incs acc = Inr acc'"
    and "P acc"
    and "\<And>inc a a'. inc \<in> set incs \<Longrightarrow> P a
           \<Longrightarrow> processIncentive tA b addr vu tv cl p inc a = Inr a' \<Longrightarrow> P a'"
  shows "P acc'"
  using assms
proof (induction incs arbitrary: acc)
  case Nil
  then show ?case by simp
next
  case (Cons inc incs)
  from Cons.prems(1) obtain a where
    a: "processIncentive tA b addr vu tv cl p inc acc = Inr a"
    and r: "incentivesLoop tA b addr vu tv cl p incs a = Inr acc'"
    by (auto split: sum.splits)
  have "inc \<in> set (inc # incs)" by simp
  then have "P a" using Cons.prems(2) a by (rule Cons.prems(3))
  then show ?case
  proof (rule Cons.IH [OF r])
    fix i x x' assume i: "i \<in> set incs" and x: "P x"
      and s: "processIncentive tA b addr vu tv cl p i x = Inr x'"
    from i have "i \<in> set (inc # incs)" by simp
    then show "P x'" using x s by (rule Cons.prems(3))
  qed
qed

lemma winnersLoop_invariant:
  assumes "winnersLoop tA b addr vu tv cl ps ws acc = Inr acc'"
    and "P acc"
    and "\<And>p g inc a a'. p \<in> set ws \<Longrightarrow> ps p = Some g \<Longrightarrow> inc \<in> set (incentives g) \<Longrightarrow> P a
           \<Longrightarrow> processIncentive tA b addr vu tv cl p inc a = Inr a' \<Longrightarrow> P a'"
  shows "P acc'"
  using assms
proof (induction ws arbitrary: acc)
  case Nil
  then show ?case by simp
next
  case (Cons w ws)
  have step: "P x'" if "p \<in> set ws" "ps p = Some g" "i \<in> set (incentives g)" "P x"
      "processIncentive tA b addr vu tv cl p i x = Inr x'" for p g i x x'
  proof -
    from that(1) have "p \<in> set (w # ws)" by simp
    then show ?thesis using that(2-5) by (rule Cons.prems(3))
  qed
  show ?case
  proof (cases "ps w")
    case None
    then have r: "winnersLoop tA b addr vu tv cl ps ws acc = Inr acc'"
      using Cons.prems(1) by simp
    show ?thesis by (rule Cons.IH [OF r Cons.prems(2)]) (rule step)
  next
    case (Some g)
    from Cons.prems(1) Some obtain a where
      a: "incentivesLoop tA b addr vu tv cl w (incentives g) acc = Inr a"
      and r: "winnersLoop tA b addr vu tv cl ps ws a = Inr acc'"
      by (auto split: sum.splits)
    have w: "w \<in> set (w # ws)" by simp
    have "P a"
      by (rule incentivesLoop_invariant [OF a, of P, OF Cons.prems(2)])
         (rule Cons.prems(3) [OF w Some])
    then show ?thesis by (rule Cons.IH [OF r]) (rule step)
  qed
qed

lemma find_None_conv: "(find P xs = None) = (\<forall>x\<in>set xs. \<not> P x)"
  by (induction xs) auto

lemma processIncentive_cases:
  assumes "processIncentive tA b addr vu tv cl p inc acc = Inr acc'"
  obtains
    (dup) "acc' = acc" "id_of tA addr p inc \<in> id_cd ` set (fst acc)"
  | (claimed) "acc' = (fst acc, snd acc + valueOfThis vu tv inc)"
      "id_of tA addr p inc \<notin> id_cd ` set (fst acc)"
      "id_of tA addr p inc \<in> id_claimed ` set cl"
  | (push) a where "amountOfThis vu tv inc = Inr a"
      "acc' = (fst acc @ [claimDetails tA b addr p inc (valueOfThis vu tv inc) a],
               snd acc + valueOfThis vu tv inc)"
      "id_of tA addr p inc \<notin> id_cd ` set (fst acc)"
      "id_of tA addr p inc \<notin> id_claimed ` set cl"
proof -
  from assms obtain a where a: "amountOfThis vu tv inc = Inr a"
    by (cases "amountOfThis vu tv inc") (simp_all add: processIncentive_def)
  have d: "(find (\<lambda>item. id_cd item = id_of tA addr p inc) (fst acc) \<noteq> None)
             = (id_of tA addr p inc \<in> id_cd ` set (fst acc))"
    by (force simp: find_None_conv)
  have c: "(find (\<lambda>item. id_claimed item = id_of tA addr p inc) cl \<noteq> None)
             = (id_of tA addr p inc \<in> id_claimed ` set cl)"
    by (force simp: find_None_conv)
  show thesis
  proof (cases "id_of tA addr p inc \<in> id_cd ` set (fst acc)")
    case True
    with assms a d have "acc' = acc" by (auto simp: processIncentive_def Let_def)
    then show thesis using True by (rule dup)
  next
    case False
    show thesis
    proof (cases "id_of tA addr p inc \<in> id_claimed ` set cl")
      case True
      with assms a d c False have "acc' = (fst acc, snd acc + valueOfThis vu tv inc)"
        by (auto simp: processIncentive_def Let_def)
      then show thesis using False True by (rule claimed)
    next
      case nc: False
      with assms a d c False
      have "acc' = (fst acc @ [claimDetails tA b addr p inc (valueOfThis vu tv inc) a],
               snd acc + valueOfThis vu tv inc)"
        by (auto simp: processIncentive_def Let_def)
      with a show thesis using False nc by (rule push)
    qed
  qed
qed

lemma claimEffect_computes:
  assumes "raw (totalVotes (whitelistedLST d)) \<noteq> 0" and "claimedIncentives d = Some cl"
  shows "\<exists>acc. winnersLoop tA b (address d) (votesUsed (voteData d)) (totalVotes (whitelistedLST d))
                 cl (protocols d) (winners (voteData d)) ([], 0) = Inr acc
           \<and> claimEffect tA b d st
               = Inr \<lparr>claimableIncentive = fst acc, totalIncentiveValue = snd acc\<rparr>"
proof -
  obtain acc where "winnersLoop tA b (address d) (votesUsed (voteData d))
      (totalVotes (whitelistedLST d)) cl (protocols d) (winners (voteData d)) ([], 0) = Inr acc"
    using winnersLoop_ok [OF assms(1)] by blast
  then show ?thesis using assms by (simp add: claimEffect_def)
qed

lemma claimEffect_cases:
  assumes "claimEffect tA b d st = Inr st'"
  obtains (unchanged) "st' = st"
  | (computed) cl acc where "raw (totalVotes (whitelistedLST d)) \<noteq> 0"
      "claimedIncentives d = Some cl"
      "winnersLoop tA b (address d) (votesUsed (voteData d)) (totalVotes (whitelistedLST d))
         cl (protocols d) (winners (voteData d)) ([], 0) = Inr acc"
      "st' = \<lparr>claimableIncentive = fst acc, totalIncentiveValue = snd acc\<rparr>"
  using assms
  by (auto simp: claimEffect_def Let_def split: if_splits option.splits sum.splits)

lemma id_cd_claimDetails [simp]: "id_cd (claimDetails tA b addr p inc v a) = id_of tA addr p inc"
  by (simp add: claimDetails_def)

lemma winnersLoop_distinct:
  assumes "winnersLoop tA b addr vu tv cl ps ws acc = Inr acc'"
    and "distinct (map id_cd (fst acc))"
  shows "distinct (map id_cd (fst acc'))"
proof (rule winnersLoop_invariant [OF assms(1), of "\<lambda>a. distinct (map id_cd (fst a))"])
  show "distinct (map id_cd (fst acc))" by (rule assms(2))
next
  fix p g inc a a'
  assume d: "distinct (map id_cd (fst a))"
    and s: "processIncentive tA b addr vu tv cl p inc a = Inr a'"
  from s show "distinct (map id_cd (fst a'))"
    by (cases rule: processIncentive_cases) (use d in auto)
qed

lemma findIndex_None_conv: "(findIndex P xs = None) = (\<forall>x\<in>set xs. \<not> P x)"
  by (induction xs) auto

lemma findIndex_Some:
  "findIndex P xs = Some i \<Longrightarrow> i < length xs \<and> P (xs ! i) \<and> (\<forall>j<i. \<not> P (xs ! j))"
proof (induction xs arbitrary: i)
  case Nil
  then show ?case by simp
next
  case (Cons x xs)
  show ?case
  proof (cases "P x")
    case True
    then show ?thesis using Cons.prems by simp
  next
    case False
    then obtain k where k: "findIndex P xs = Some k" and i: "i = Suc k"
      using Cons.prems by auto
    from Cons.IH [OF k] False i show ?thesis
      by (auto simp: nth_Cons split: nat.splits)
  qed
qed

lemma map_id_onUpdateIncentive: "map id_cd (onUpdateIncentive i sel cs) = map id_cd cs"
proof (cases "findIndex (\<lambda>item. id_cd item = i) cs")
  case None
  then show ?thesis by (simp add: onUpdateIncentive_def)
next
  case (Some k)
  from findIndex_Some [OF Some] have "k < length cs" by simp
  then have "(map id_cd cs)[k := id_cd (cs ! k)] = map id_cd cs"
    by (simp add: list_update_same_conv)
  then show ?thesis using Some by (simp add: onUpdateIncentive_def map_update)
qed

lemma winnersLoop_origin:
  assumes "winnersLoop tA b addr vu tv cl ps ws ([], 0) = Inr acc'"
  shows "\<forall>r\<in>set (fst acc'). \<exists>p g inc a. p \<in> set ws \<and> ps p = Some g
           \<and> inc \<in> set (incentives g) \<and> amountOfThis vu tv inc = Inr a
           \<and> r = claimDetails tA b addr p inc (valueOfThis vu tv inc) a"
proof -
  let ?Q = "\<lambda>r. \<exists>p g inc a. p \<in> set ws \<and> ps p = Some g
           \<and> inc \<in> set (incentives g) \<and> amountOfThis vu tv inc = Inr a
           \<and> r = claimDetails tA b addr p inc (valueOfThis vu tv inc) a"
  have "\<forall>r\<in>set (fst acc'). ?Q r"
  proof (rule winnersLoop_invariant [OF assms, of "\<lambda>x. \<forall>r\<in>set (fst x). ?Q r"])
    show "\<forall>r\<in>set (fst ([]::TClaimDetails list, 0::rat)). ?Q r" by simp
  next
    fix p g inc x x'
    assume p: "p \<in> set ws" and g: "ps p = Some g" and i: "inc \<in> set (incentives g)"
      and x: "\<forall>r\<in>set (fst x). ?Q r"
      and s: "processIncentive tA b addr vu tv cl p inc x = Inr x'"
    from s show "\<forall>r\<in>set (fst x'). ?Q r"
    proof (cases rule: processIncentive_cases)
      case dup
      then show ?thesis using x by simp
    next
      case claimed
      then show ?thesis using x by simp
    next
      case (push a)
      have "?Q (claimDetails tA b addr p inc (valueOfThis vu tv inc) a)"
        by (intro exI conjI) (rule p g i push(1) refl)+
      then show ?thesis using x by (simp add: push(2))
    qed
  qed
  then show ?thesis .
qed

lemma winnersLoop_unclaimed:
  assumes "winnersLoop tA b addr vu tv cl ps ws acc = Inr acc'"
    and "\<forall>r\<in>set (fst acc). id_cd r \<notin> id_claimed ` set cl"
  shows "\<forall>r\<in>set (fst acc'). id_cd r \<notin> id_claimed ` set cl"
proof (rule winnersLoop_invariant [OF assms(1), of "\<lambda>a. \<forall>r\<in>set (fst a). id_cd r \<notin> id_claimed ` set cl"])
  show "\<forall>r\<in>set (fst acc). id_cd r \<notin> id_claimed ` set cl" by (rule assms(2))
next
  fix p g inc x x'
  assume x: "\<forall>r\<in>set (fst x). id_cd r \<notin> id_claimed ` set cl"
    and s: "processIncentive tA b addr vu tv cl p inc x = Inr x'"
  from s show "\<forall>r\<in>set (fst x'). id_cd r \<notin> id_claimed ` set cl"
    by (cases rule: processIncentive_cases) (use x in auto)
qed


lemma incentivesLoop_total:
  assumes "incentivesLoop tA b addr vu tv cl p incs acc = Inr acc'"
    and "\<forall>r\<in>set (fst acc). id_cd r \<notin> id_claimed ` set cl"
  shows "snd acc' - sum_list (map value_cd (fst acc'))
           = snd acc - sum_list (map value_cd (fst acc)) + valueOfClaimed tA addr vu tv cl p incs
         \<and> (\<forall>r\<in>set (fst acc'). id_cd r \<notin> id_claimed ` set cl)"
  using assms
proof (induction incs arbitrary: acc)
  case Nil
  then show ?case by (simp add: valueOfClaimed_def)
next
  case (Cons inc incs)
  from Cons.prems(1) obtain a where
    a: "processIncentive tA b addr vu tv cl p inc acc = Inr a"
    and r: "incentivesLoop tA b addr vu tv cl p incs a = Inr acc'"
    by (auto split: sum.splits)
  have step: "snd a - sum_list (map value_cd (fst a))
           = snd acc - sum_list (map value_cd (fst acc)) + valueOfClaimed tA addr vu tv cl p [inc]
         \<and> (\<forall>r\<in>set (fst a). id_cd r \<notin> id_claimed ` set cl)"
    using a
  proof (cases rule: processIncentive_cases)
    case dup
    from dup(2) obtain r where "r \<in> set (fst acc)" and "id_of tA addr p inc = id_cd r"
      by (auto simp: image_iff)
    then have "id_of tA addr p inc \<notin> id_claimed ` set cl"
      using Cons.prems(2) by simp
    then show ?thesis using dup Cons.prems(2) by (simp add: valueOfClaimed_def)
  next
    case claimed
    then show ?thesis using Cons.prems(2) by (simp add: valueOfClaimed_def)
  next
    case (push x)
    then show ?thesis using Cons.prems(2) by (simp add: valueOfClaimed_def claimDetails_def)
  qed
  have split: "valueOfClaimed tA addr vu tv cl p (inc # incs)
      = valueOfClaimed tA addr vu tv cl p [inc] + valueOfClaimed tA addr vu tv cl p incs"
    by (simp add: valueOfClaimed_def)
  from Cons.IH [OF r] step show ?case by (simp add: split)
qed

lemma winnersLoop_total:
  assumes "winnersLoop tA b addr vu tv cl ps ws acc = Inr acc'"
    and "\<forall>r\<in>set (fst acc). id_cd r \<notin> id_claimed ` set cl"
  shows "snd acc' - sum_list (map value_cd (fst acc'))
           = snd acc - sum_list (map value_cd (fst acc))
             + valueOfClaimedWinners tA addr vu tv cl ps ws"
  using assms
proof (induction ws arbitrary: acc)
  case Nil
  then show ?case by (simp add: valueOfClaimedWinners_def)
next
  case (Cons w ws)
  show ?case
  proof (cases "ps w")
    case None
    then have r: "winnersLoop tA b addr vu tv cl ps ws acc = Inr acc'"
      using Cons.prems(1) by simp
    from Cons.IH [OF r Cons.prems(2)] None show ?thesis
      by (simp add: valueOfClaimedWinners_def)
  next
    case (Some g)
    from Cons.prems(1) Some obtain a where
      a: "incentivesLoop tA b addr vu tv cl w (incentives g) acc = Inr a"
      and r: "winnersLoop tA b addr vu tv cl ps ws a = Inr acc'"
      by (auto split: sum.splits)
    from incentivesLoop_total [OF a Cons.prems(2)]
    have t: "snd a - sum_list (map value_cd (fst a))
           = snd acc - sum_list (map value_cd (fst acc))
             + valueOfClaimed tA addr vu tv cl w (incentives g)"
      and u: "\<forall>r\<in>set (fst a). id_cd r \<notin> id_claimed ` set cl"
      by simp_all
    from Cons.IH [OF r u] t Some show ?thesis
      by (simp add: valueOfClaimedWinners_def)
  qed
qed

lemma foldl_add_value: "foldl (\<lambda>total incentive. total + value_cd incentive) z cs
    = z + sum_list (map value_cd cs)"
  by (induction cs arbitrary: z) simp_all

lemma totalToClaim_sum: "totalToClaim cs = sum_list (map value_cd cs)"
  by (simp add: totalToClaim_def foldl_add_value)

lemma winnersLoop_append:
  "winnersLoop tA b addr vu tv cl ps (ws1 @ ws2) acc
     = (case winnersLoop tA b addr vu tv cl ps ws1 acc of
          Inl e \<Rightarrow> Inl e
        | Inr a \<Rightarrow> winnersLoop tA b addr vu tv cl ps ws2 a)"
  by (induction ws1 arbitrary: acc) (auto split: option.splits sum.splits)

lemma winnersLoop_skip:
  assumes "ps p = None"
  shows "winnersLoop tA b addr vu tv cl ps (ws1 @ p # ws2) acc
     = winnersLoop tA b addr vu tv cl ps (ws1 @ ws2) acc"
  using assms by (simp add: winnersLoop_append split: sum.splits)

section \<open>The concrete runs\<close>

lemmas run_defs = claimEffect_def totalVotes_def toNormalizedBN_def votes_or_0_def
  processIncentive_def valueOfThis_def amountOfThis_def bigint_div_def id_of_def
  claimDetails_def toAddress_ex_def incentive_ex_def decimals_or_18_def state_initial_def
  claim_ex_def Let_def

lemma claimEffect_deps_ex: "claimEffect toAddress_ex None deps_ex state_initial = Inr state_ex"
  by (simp add: run_defs deps_ex_def state_ex_def)

lemma reachable_state_ex: "reachable toAddress_ex None state_ex"
  using reachable.effect [OF reachable.initial claimEffect_deps_ex [unfolded state_initial_def]]
  by simp

section \<open>The claimable set\<close>

text \<open>
  C4. In every state the component can reach (from the empty initial state, by running the
  aggregation on any data and by ticking checkboxes), the ids of the claimable records are
  pairwise different: no composite key appears twice.
\<close>

theorem claimable_ids_distinct:
  "reachable tA b st \<Longrightarrow> distinct (map id_cd (claimableIncentive st))"
proof (induction rule: reachable.induct)
  case (initial tA bootstrap)
  show ?case by simp
next
  case (effect tA bootstrap st d st')
  from effect.hyps(2) show ?case
  proof (cases rule: claimEffect_cases)
    case unchanged
    then show ?thesis using effect.IH by simp
  next
    case (computed cl acc)
    have "distinct (map id_cd (fst acc))"
      using winnersLoop_distinct [OF computed(3)] by simp
    then show ?thesis using computed(4) by simp
  qed
next
  case (update tA bootstrap st i sel)
  then show ?case by (simp add: map_id_onUpdateIncentive)
qed

theorem claimable_ids_distinct_witness:
  "reachable toAddress_ex None state_ex
     \<and> distinct (map id_cd (claimableIncentive state_ex))
     \<and> map id_cd (claimableIncentive state_ex) = [''0xP1-0xT1-0xU'', ''0xP2-0xT3-0xU'']"
  using claimable_ids_distinct [OF reachable_state_ex] reachable_state_ex
  by (simp add: state_ex_def claim_ex_def)

lemma valueOfThis_eq:
  "valueOfThis vu tv inc = value_inc inc * normalized vu / normalized tv"
  by (simp add: valueOfThis_def)

lemma incentivesLoop_ids:
  assumes "incentivesLoop tA b addr vu tv cl p incs acc = Inr acc'"
  shows "id_cd ` set (fst acc') = id_cd ` set (fst acc)
           \<union> {id_of tA addr p inc |inc. inc \<in> set incs
                 \<and> id_of tA addr p inc \<notin> id_claimed ` set cl}"
  using assms
proof (induction incs arbitrary: acc)
  case Nil
  then show ?case by simp
next
  case (Cons inc incs)
  from Cons.prems(1) obtain a where
    a: "processIncentive tA b addr vu tv cl p inc acc = Inr a"
    and r: "incentivesLoop tA b addr vu tv cl p incs a = Inr acc'"
    by (auto split: sum.splits)
  have step: "id_cd ` set (fst a) = id_cd ` set (fst acc)
      \<union> (if id_of tA addr p inc \<in> id_claimed ` set cl then {} else {id_of tA addr p inc})"
    using a by (cases rule: processIncentive_cases) auto
  show ?case unfolding Cons.IH [OF r] step by auto
qed

lemma winnersLoop_ids:
  assumes "winnersLoop tA b addr vu tv cl ps ws acc = Inr acc'"
  shows "id_cd ` set (fst acc') = id_cd ` set (fst acc)
           \<union> {id_of tA addr p inc |p g inc. p \<in> set ws \<and> ps p = Some g
                 \<and> inc \<in> set (incentives g)
                 \<and> id_of tA addr p inc \<notin> id_claimed ` set cl}"
  using assms
proof (induction ws arbitrary: acc)
  case Nil
  then show ?case by simp
next
  case (Cons w ws)
  show ?case
  proof (cases "ps w")
    case None
    then have r: "winnersLoop tA b addr vu tv cl ps ws acc = Inr acc'"
      using Cons.prems(1) by simp
    show ?thesis unfolding Cons.IH [OF r] using None by auto
  next
    case (Some g)
    from Cons.prems(1) Some obtain a where
      a: "incentivesLoop tA b addr vu tv cl w (incentives g) acc = Inr a"
      and r: "winnersLoop tA b addr vu tv cl ps ws a = Inr acc'"
      by (auto split: sum.splits)
    show ?thesis unfolding Cons.IH [OF r] incentivesLoop_ids [OF a] using Some by auto
  qed
qed

section \<open>The pro-rata share\<close>

text \<open>
  C1. When the total of the votes is greater than 0 (and the claimed incentives are loaded),
  the aggregation returns, and every claimable record comes from an incentive of a winning
  protocol with the value \<open>incentive.value * userVotes / totalVotes\<close>, which is 0 when the
  user's votes are 0; every incentive of a winner that is not claimed has a record with its
  id. With 100 votes in total, 25 votes of the user and an incentive worth 1000, the
  claimable value is 250.
\<close>

theorem claimable_value_pro_rata:
  assumes "0 < raw (totalVotes (whitelistedLST d))" and "claimedIncentives d = Some cl"
  shows "(\<exists>st'. claimEffect tA b d st = Inr st'
     \<and> (\<forall>r\<in>set (claimableIncentive st'). \<exists>p g inc.
           p \<in> set (winners (voteData d)) \<and> protocols d p = Some g \<and> inc \<in> set (incentives g)
         \<and> id_cd r = id_of tA (address d) p inc
         \<and> value_cd r = value_inc inc * normalized (votesUsed (voteData d))
                          / normalized (totalVotes (whitelistedLST d))
         \<and> (normalized (votesUsed (voteData d)) = 0 \<longrightarrow> value_cd r = 0))
     \<and> (\<forall>p g inc. p \<in> set (winners (voteData d)) \<and> protocols d p = Some g
           \<and> inc \<in> set (incentives g) \<and> id_of tA (address d) p inc \<notin> id_claimed ` set cl
         \<longrightarrow> id_of tA (address d) p inc \<in> id_cd ` set (claimableIncentive st')))
   \<and> claimEffect toAddress_ex None deps_one state_initial
       = Inr \<lparr>claimableIncentive =
               [claim_ex ''0xP1'' ''0xT1'' 250 \<lparr>raw = 2 * 10 ^ 18, normalized = 2\<rparr> True],
              totalIncentiveValue = 250\<rparr>"
proof (rule conjI)
  from assms(1) have nz: "raw (totalVotes (whitelistedLST d)) \<noteq> 0" by simp
  from claimEffect_computes [OF nz assms(2), of tA b st] obtain acc where
    w: "winnersLoop tA b (address d) (votesUsed (voteData d)) (totalVotes (whitelistedLST d))
          cl (protocols d) (winners (voteData d)) ([], 0) = Inr acc"
    and e: "claimEffect tA b d st
          = Inr \<lparr>claimableIncentive = fst acc, totalIncentiveValue = snd acc\<rparr>"
    by blast
  have v: "\<forall>r\<in>set (fst acc). \<exists>p g inc.
           p \<in> set (winners (voteData d)) \<and> protocols d p = Some g \<and> inc \<in> set (incentives g)
         \<and> id_cd r = id_of tA (address d) p inc
         \<and> value_cd r = value_inc inc * normalized (votesUsed (voteData d))
                          / normalized (totalVotes (whitelistedLST d))
         \<and> (normalized (votesUsed (voteData d)) = 0 \<longrightarrow> value_cd r = 0)"
  proof
    fix r assume "r \<in> set (fst acc)"
    with winnersLoop_origin [OF w] obtain p g inc a where
      o: "p \<in> set (winners (voteData d))" "protocols d p = Some g" "inc \<in> set (incentives g)"
      and r: "r = claimDetails tA b (address d) p inc
            (valueOfThis (votesUsed (voteData d)) (totalVotes (whitelistedLST d)) inc) a"
      by blast
    have "id_cd r = id_of tA (address d) p inc" using r by simp
    moreover have "value_cd r = value_inc inc * normalized (votesUsed (voteData d))
                          / normalized (totalVotes (whitelistedLST d))"
      using r by (simp add: claimDetails_def valueOfThis_eq)
    ultimately show "\<exists>p g inc.
           p \<in> set (winners (voteData d)) \<and> protocols d p = Some g \<and> inc \<in> set (incentives g)
         \<and> id_cd r = id_of tA (address d) p inc
         \<and> value_cd r = value_inc inc * normalized (votesUsed (voteData d))
                          / normalized (totalVotes (whitelistedLST d))
         \<and> (normalized (votesUsed (voteData d)) = 0 \<longrightarrow> value_cd r = 0)"
      using o by auto
  qed
  have c: "\<forall>p g inc. p \<in> set (winners (voteData d)) \<and> protocols d p = Some g
           \<and> inc \<in> set (incentives g) \<and> id_of tA (address d) p inc \<notin> id_claimed ` set cl
         \<longrightarrow> id_of tA (address d) p inc \<in> id_cd ` set (fst acc)"
    unfolding winnersLoop_ids [OF w] by auto
  show "\<exists>st'. claimEffect tA b d st = Inr st'
     \<and> (\<forall>r\<in>set (claimableIncentive st'). \<exists>p g inc.
           p \<in> set (winners (voteData d)) \<and> protocols d p = Some g \<and> inc \<in> set (incentives g)
         \<and> id_cd r = id_of tA (address d) p inc
         \<and> value_cd r = value_inc inc * normalized (votesUsed (voteData d))
                          / normalized (totalVotes (whitelistedLST d))
         \<and> (normalized (votesUsed (voteData d)) = 0 \<longrightarrow> value_cd r = 0))
     \<and> (\<forall>p g inc. p \<in> set (winners (voteData d)) \<and> protocols d p = Some g
           \<and> inc \<in> set (incentives g) \<and> id_of tA (address d) p inc \<notin> id_claimed ` set cl
         \<longrightarrow> id_of tA (address d) p inc \<in> id_cd ` set (claimableIncentive st'))"
    using e v c by simp
next
  show "claimEffect toAddress_ex None deps_one state_initial
       = Inr \<lparr>claimableIncentive =
               [claim_ex ''0xP1'' ''0xT1'' 250 \<lparr>raw = 2 * 10 ^ 18, normalized = 2\<rparr> True],
              totalIncentiveValue = 250\<rparr>"
    by (simp add: run_defs deps_one_def)
qed

theorem claimable_value_pro_rata_witness:
  "0 < raw (totalVotes (whitelistedLST deps_ex))
   \<and> claimedIncentives deps_ex = Some [\<lparr>id_claimed = ''0xP1-0xT2-0xU''\<rparr>]
   \<and> (\<exists>st'. claimEffect toAddress_ex None deps_ex state_initial = Inr st'
       \<and> map value_cd (claimableIncentive st') = [1000 * 25 / 100, 40 * 25 / 100])"
proof -
  have h1: "0 < raw (totalVotes (whitelistedLST deps_ex))"
    by (simp add: deps_ex_def totalVotes_def toNormalizedBN_def votes_or_0_def)
  have h2: "claimedIncentives deps_ex = Some [\<lparr>id_claimed = ''0xP1-0xT2-0xU''\<rparr>]"
    by (simp add: deps_ex_def)
  show ?thesis
    using claimable_value_pro_rata [OF h1 h2, of toAddress_ex None state_initial] h1 h2
    by (simp add: claimEffect_deps_ex state_ex_def claim_ex_def)
qed

section \<open>Integer and number arithmetic\<close>

text \<open>
  C2, as stated, fails: the claimable value is not computed in integer arithmetic on the raw
  units. With 2 votes in total, 1 vote used and an incentive worth 1, the code yields the
  value 1/2, where the integer arithmetic of the claim yields 0.
\<close>

theorem claimable_value_integer_counterexample:
  "map_sum id (hd \<circ> map value_cd \<circ> claimableIncentive)
       (claimEffect toAddress_ex None deps_half state_initial) = Inr (1 / 2)
   \<and> valueOfThis_spec (votesUsed (voteData deps_half)) (totalVotes (whitelistedLST deps_half)) 1
       = Inr 0
   \<and> map_sum id (hd \<circ> map value_cd \<circ> claimableIncentive)
         (claimEffect toAddress_ex None deps_half state_initial)
       \<noteq> valueOfThis_spec (votesUsed (voteData deps_half))
           (totalVotes (whitelistedLST deps_half)) 1"
  by (simp add: run_defs deps_half_def valueOfThis_spec_def)

text \<open>
  C2, amended. The raw claimable amount of every record is the truncated bigint quotient
  \<open>incentive.amount * votesUsed.raw / totalVotes.raw\<close>, taken before the normalization by
  the decimals of the token; the claimable value is computed on numbers, from the normalized
  figures of the votes: \<open>incentive.value * votesUsed.normalized / totalVotes.normalized\<close>.
\<close>

theorem claimable_amount_integer_value_number:
  assumes "raw (totalVotes (whitelistedLST d)) \<noteq> 0" and "claimedIncentives d = Some cl"
  shows "\<exists>st'. claimEffect tA b d st = Inr st'
     \<and> (\<forall>r\<in>set (claimableIncentive st'). \<exists>p g inc.
           p \<in> set (winners (voteData d)) \<and> protocols d p = Some g \<and> inc \<in> set (incentives g)
         \<and> id_cd r = id_of tA (address d) p inc
         \<and> bigint_div (amount_inc inc * raw (votesUsed (voteData d)))
              (raw (totalVotes (whitelistedLST d))) = Inr (raw (amount_cd r))
         \<and> amount_cd r = toNormalizedBN (raw (amount_cd r)) (decimals_or_18 inc)
         \<and> value_cd r = value_inc inc * normalized (votesUsed (voteData d))
                          / normalized (totalVotes (whitelistedLST d)))"
proof -
  from claimEffect_computes [OF assms, of tA b st] obtain acc where
    w: "winnersLoop tA b (address d) (votesUsed (voteData d)) (totalVotes (whitelistedLST d))
          cl (protocols d) (winners (voteData d)) ([], 0) = Inr acc"
    and e: "claimEffect tA b d st
          = Inr \<lparr>claimableIncentive = fst acc, totalIncentiveValue = snd acc\<rparr>"
    by blast
  have v: "\<forall>r\<in>set (fst acc). \<exists>p g inc.
           p \<in> set (winners (voteData d)) \<and> protocols d p = Some g \<and> inc \<in> set (incentives g)
         \<and> id_cd r = id_of tA (address d) p inc
         \<and> bigint_div (amount_inc inc * raw (votesUsed (voteData d)))
              (raw (totalVotes (whitelistedLST d))) = Inr (raw (amount_cd r))
         \<and> amount_cd r = toNormalizedBN (raw (amount_cd r)) (decimals_or_18 inc)
         \<and> value_cd r = value_inc inc * normalized (votesUsed (voteData d))
                          / normalized (totalVotes (whitelistedLST d))"
  proof
    fix r assume "r \<in> set (fst acc)"
    with winnersLoop_origin [OF w] obtain p g inc a where
      o: "p \<in> set (winners (voteData d))" "protocols d p = Some g" "inc \<in> set (incentives g)"
      and a: "amountOfThis (votesUsed (voteData d)) (totalVotes (whitelistedLST d)) inc = Inr a"
      and r: "r = claimDetails tA b (address d) p inc
            (valueOfThis (votesUsed (voteData d)) (totalVotes (whitelistedLST d)) inc) a"
      by blast
    from a obtain q where
      q: "bigint_div (amount_inc inc * raw (votesUsed (voteData d)))
              (raw (totalVotes (whitelistedLST d))) = Inr q"
      and aq: "a = toNormalizedBN q (decimals_or_18 inc)"
      by (auto simp: amountOfThis_def split: sum.splits)
    have ra: "amount_cd r = a" using r by (simp add: claimDetails_def)
    have rq: "raw (amount_cd r) = q" using ra aq by (simp add: toNormalizedBN_def)
    have "id_cd r = id_of tA (address d) p inc" using r by simp
    moreover have "value_cd r = value_inc inc * normalized (votesUsed (voteData d))
                          / normalized (totalVotes (whitelistedLST d))"
      using r by (simp add: claimDetails_def valueOfThis_eq)
    moreover have "bigint_div (amount_inc inc * raw (votesUsed (voteData d)))
              (raw (totalVotes (whitelistedLST d))) = Inr (raw (amount_cd r))"
      using q rq by simp
    moreover have "amount_cd r = toNormalizedBN (raw (amount_cd r)) (decimals_or_18 inc)"
      using ra aq rq by simp
    ultimately show "\<exists>p g inc.
           p \<in> set (winners (voteData d)) \<and> protocols d p = Some g \<and> inc \<in> set (incentives g)
         \<and> id_cd r = id_of tA (address d) p inc
         \<and> bigint_div (amount_inc inc * raw (votesUsed (voteData d)))
              (raw (totalVotes (whitelistedLST d))) = Inr (raw (amount_cd r))
         \<and> amount_cd r = toNormalizedBN (raw (amount_cd r)) (decimals_or_18 inc)
         \<and> value_cd r = value_inc inc * normalized (votesUsed (voteData d))
                          / normalized (totalVotes (whitelistedLST d))"
      using o by blast
  qed
  show ?thesis using e v by simp
qed

theorem claimable_amount_integer_value_number_witness:
  "raw (totalVotes (whitelistedLST deps_half)) \<noteq> 0
   \<and> claimedIncentives deps_half = Some []
   \<and> (\<exists>st'. claimEffect toAddress_ex None deps_half state_initial = Inr st'
       \<and> map (raw \<circ> amount_cd) (claimableIncentive st') = [1]
       \<and> map value_cd (claimableIncentive st') = [1 / 2])"
proof -
  have h1: "raw (totalVotes (whitelistedLST deps_half)) \<noteq> 0"
    by (simp add: deps_half_def totalVotes_def toNormalizedBN_def votes_or_0_def)
  have h2: "claimedIncentives deps_half = Some []"
    by (simp add: deps_half_def)
  show ?thesis
    using claimable_amount_integer_value_number [OF h1 h2, of toAddress_ex None state_initial]
      h1 h2
    by (simp add: run_defs deps_half_def)
qed

section \<open>Claimed incentives\<close>

text \<open>
  C3. When the aggregation runs, no record of the claimable set has an id of the list of the
  claimed incentives, and the displayed total is the sum of the claimable values plus the
  pro-rata values of the incentives that are claimed. At each step, an incentive whose id is
  claimed leaves the claimable set as it is and adds its \<open>valueOfThis\<close> to the total.
\<close>

theorem claimed_excluded_but_counted:
  assumes "raw (totalVotes (whitelistedLST d)) \<noteq> 0" and "claimedIncentives d = Some cl"
  shows "(\<exists>st'. claimEffect tA b d st = Inr st'
     \<and> (\<forall>r\<in>set (claimableIncentive st'). id_cd r \<notin> id_claimed ` set cl)
     \<and> totalIncentiveValue st' = totalToClaim (claimableIncentive st')
         + valueOfClaimedWinners tA (address d) (votesUsed (voteData d))
             (totalVotes (whitelistedLST d)) cl (protocols d) (winners (voteData d)))
   \<and> (\<forall>p inc acc. id_of tA (address d) p inc \<in> id_claimed ` set cl
          \<and> (\<forall>r\<in>set (fst acc). id_cd r \<notin> id_claimed ` set cl)
        \<longrightarrow> processIncentive tA b (address d) (votesUsed (voteData d))
              (totalVotes (whitelistedLST d)) cl p inc acc
            = Inr (fst acc, snd acc + valueOfThis (votesUsed (voteData d))
                     (totalVotes (whitelistedLST d)) inc))"
proof (rule conjI)
  from claimEffect_computes [OF assms, of tA b st] obtain acc where
    w: "winnersLoop tA b (address d) (votesUsed (voteData d)) (totalVotes (whitelistedLST d))
          cl (protocols d) (winners (voteData d)) ([], 0) = Inr acc"
    and e: "claimEffect tA b d st
          = Inr \<lparr>claimableIncentive = fst acc, totalIncentiveValue = snd acc\<rparr>"
    by blast
  have u: "\<forall>r\<in>set (fst acc). id_cd r \<notin> id_claimed ` set cl"
    using winnersLoop_unclaimed [OF w] by simp
  have t: "snd acc = totalToClaim (fst acc)
         + valueOfClaimedWinners tA (address d) (votesUsed (voteData d))
             (totalVotes (whitelistedLST d)) cl (protocols d) (winners (voteData d))"
    using winnersLoop_total [OF w] by (simp add: totalToClaim_sum)
  show "\<exists>st'. claimEffect tA b d st = Inr st'
     \<and> (\<forall>r\<in>set (claimableIncentive st'). id_cd r \<notin> id_claimed ` set cl)
     \<and> totalIncentiveValue st' = totalToClaim (claimableIncentive st')
         + valueOfClaimedWinners tA (address d) (votesUsed (voteData d))
             (totalVotes (whitelistedLST d)) cl (protocols d) (winners (voteData d))"
    using e u t by simp
next
  show "\<forall>p inc acc. id_of tA (address d) p inc \<in> id_claimed ` set cl
          \<and> (\<forall>r\<in>set (fst acc). id_cd r \<notin> id_claimed ` set cl)
        \<longrightarrow> processIncentive tA b (address d) (votesUsed (voteData d))
              (totalVotes (whitelistedLST d)) cl p inc acc
            = Inr (fst acc, snd acc + valueOfThis (votesUsed (voteData d))
                     (totalVotes (whitelistedLST d)) inc)"
  proof (intro allI impI)
    fix p inc and acc :: "TClaimDetails list \<times> rat"
    assume h: "id_of tA (address d) p inc \<in> id_claimed ` set cl
          \<and> (\<forall>r\<in>set (fst acc). id_cd r \<notin> id_claimed ` set cl)"
    obtain a where a: "processIncentive tA b (address d) (votesUsed (voteData d))
              (totalVotes (whitelistedLST d)) cl p inc acc = Inr a"
      using processIncentive_ok [OF assms(1)] by blast
    from a have "a = (fst acc, snd acc + valueOfThis (votesUsed (voteData d))
                     (totalVotes (whitelistedLST d)) inc)"
    proof (cases rule: processIncentive_cases)
      case dup
      then obtain r where "r \<in> set (fst acc)" "id_of tA (address d) p inc = id_cd r"
        by (auto simp: image_iff)
      then have False using h by auto
      then show ?thesis ..
    next
      case claimed
      then show ?thesis by simp
    next
      case (push x)
      then show ?thesis using h by simp
    qed
    then show "processIncentive tA b (address d) (votesUsed (voteData d))
              (totalVotes (whitelistedLST d)) cl p inc acc
            = Inr (fst acc, snd acc + valueOfThis (votesUsed (voteData d))
                     (totalVotes (whitelistedLST d)) inc)"
      using a by simp
  qed
qed

theorem claimed_excluded_but_counted_witness:
  "raw (totalVotes (whitelistedLST deps_ex)) \<noteq> 0
   \<and> claimedIncentives deps_ex = Some [\<lparr>id_claimed = ''0xP1-0xT2-0xU''\<rparr>]
   \<and> (\<exists>st'. claimEffect toAddress_ex None deps_ex state_initial = Inr st'
       \<and> ''0xP1-0xT2-0xU'' \<notin> id_cd ` set (claimableIncentive st')
       \<and> totalToClaim (claimableIncentive st') = 260
       \<and> totalIncentiveValue st' = 260 + 200 * 25 / 100)"
proof -
  have h1: "raw (totalVotes (whitelistedLST deps_ex)) \<noteq> 0"
    by (simp add: deps_ex_def totalVotes_def toNormalizedBN_def votes_or_0_def)
  have h2: "claimedIncentives deps_ex = Some [\<lparr>id_claimed = ''0xP1-0xT2-0xU''\<rparr>]"
    by (simp add: deps_ex_def)
  show ?thesis
    using claimed_excluded_but_counted [OF h1 h2, of toAddress_ex None state_initial] h1 h2
    by (simp add: claimEffect_deps_ex state_ex_def claim_ex_def totalToClaim_def)
qed

lemma foldl_add_votes: "foldl (\<lambda>sum item. sum + votes_or_0 item) z l
    = z + sum_list (map votes_or_0 l)"
  by (induction l arbitrary: z) simp_all

lemma raw_totalVotes: "raw (totalVotes l) = sum_list (map votes_or_0 l)"
  by (simp add: totalVotes_def toNormalizedBN_def foldl_add_votes)

lemma normalized_totalVotes: "normalized (totalVotes l) = of_int (raw (totalVotes l)) / 10 ^ 18"
  by (simp add: totalVotes_def toNormalizedBN_def)

lemma claimEffect_ok: "\<exists>st'. claimEffect tA b d st = Inr st'"
proof (cases "raw (totalVotes (whitelistedLST d)) = 0")
  case True
  then show ?thesis by (simp add: claimEffect_def)
next
  case nz: False
  show ?thesis
  proof (cases "claimedIncentives d")
    case None
    then show ?thesis by (simp add: claimEffect_def Let_def)
  next
    case (Some cl)
    from claimEffect_computes [OF nz Some, of tA b st] show ?thesis by blast
  qed
qed

section \<open>The guard of the divisions\<close>

text \<open>
  C5. The effect never ends in the RangeError of a bigint division by zero: when the raw
  total of the votes is \<open>0n\<close> it returns at once and leaves the state as it is. The bigint
  division of \<open>amountOfThis\<close> fails exactly when the raw total is 0, so it is reached with a
  total other than 0 only; then the normalized total, the divisor of \<open>valueOfThis\<close>, is not
  0 either, and the total is greater than 0 when no vote is negative.
\<close>

theorem division_by_totalVotes_guarded:
  "(\<exists>st'. claimEffect tA b d st = Inr st')
   \<and> (raw (totalVotes (whitelistedLST d)) = 0 \<longrightarrow> claimEffect tA b d st = Inr st)
   \<and> ((amountOfThis vu tv inc = Inl RangeError) = (raw tv = 0))
   \<and> (raw (totalVotes l) \<noteq> 0 \<longrightarrow> normalized (totalVotes l) \<noteq> 0)
   \<and> ((\<forall>item\<in>set l. 0 \<le> votes_or_0 item) \<and> raw (totalVotes l) \<noteq> 0
        \<longrightarrow> 0 < raw (totalVotes l))"
proof (intro conjI)
  show "\<exists>st'. claimEffect tA b d st = Inr st'" by (rule claimEffect_ok)
  show "raw (totalVotes (whitelistedLST d)) = 0 \<longrightarrow> claimEffect tA b d st = Inr st"
    by (simp add: claimEffect_def)
  show "(amountOfThis vu tv inc = Inl RangeError) = (raw tv = 0)"
    by (simp add: amountOfThis_def bigint_div_def)
  show "raw (totalVotes l) \<noteq> 0 \<longrightarrow> normalized (totalVotes l) \<noteq> 0"
    by (simp add: normalized_totalVotes)
  show "(\<forall>item\<in>set l. 0 \<le> votes_or_0 item) \<and> raw (totalVotes l) \<noteq> 0
        \<longrightarrow> 0 < raw (totalVotes l)"
  proof
    assume h: "(\<forall>item\<in>set l. 0 \<le> votes_or_0 item) \<and> raw (totalVotes l) \<noteq> 0"
    then have "0 \<le> sum_list (map votes_or_0 l)" by (intro sum_list_nonneg) auto
    then show "0 < raw (totalVotes l)" using h by (simp add: raw_totalVotes)
  qed
qed

theorem division_by_totalVotes_guarded_witness:
  "raw (totalVotes (whitelistedLST deps_zero)) = 0
   \<and> claimEffect toAddress_ex None deps_zero state_ex = Inr state_ex
   \<and> amountOfThis (votesUsed (voteData deps_zero)) (totalVotes (whitelistedLST deps_zero))
        (incentive_ex ''0xT1'' 1000 (8 * 10 ^ 18)) = Inl RangeError
   \<and> winnersLoop toAddress_ex None (address deps_zero) (votesUsed (voteData deps_zero))
        (totalVotes (whitelistedLST deps_zero)) [] (protocols deps_zero)
        (winners (voteData deps_zero)) ([], 0) = Inl RangeError
   \<and> map votes_or_0 (whitelistedLST deps_one) = [60 * 10 ^ 18, 0, 40 * 10 ^ 18]
   \<and> raw (totalVotes (whitelistedLST deps_one)) \<noteq> 0
   \<and> 0 < raw (totalVotes (whitelistedLST deps_one))
   \<and> normalized (totalVotes (whitelistedLST deps_one)) \<noteq> 0"
proof -
  have z: "raw (totalVotes (whitelistedLST deps_zero)) = 0"
    by (simp add: deps_zero_def deps_one_def totalVotes_def toNormalizedBN_def votes_or_0_def)
  have p: "(\<forall>item\<in>set (whitelistedLST deps_one). 0 \<le> votes_or_0 item)
      \<and> raw (totalVotes (whitelistedLST deps_one)) \<noteq> 0"
    by (simp add: deps_one_def totalVotes_def toNormalizedBN_def votes_or_0_def)
  have v: "map votes_or_0 (whitelistedLST deps_one) = [60 * 10 ^ 18, 0, 40 * 10 ^ 18]"
    by (simp add: deps_one_def votes_or_0_def)
  have w: "winnersLoop toAddress_ex None (address deps_zero) (votesUsed (voteData deps_zero))
        (totalVotes (whitelistedLST deps_zero)) [] (protocols deps_zero)
        (winners (voteData deps_zero)) ([], 0) = Inl RangeError"
    by (simp add: run_defs deps_zero_def deps_one_def)
  show ?thesis
    using division_by_totalVotes_guarded [of toAddress_ex None deps_zero state_ex
        "votesUsed (voteData deps_zero)" "totalVotes (whitelistedLST deps_zero)"
        "incentive_ex ''0xT1'' 1000 (8 * 10 ^ 18)" "whitelistedLST deps_one"] z p w v
    by simp
qed

section \<open>Winners without incentive history\<close>

text \<open>
  C7. A winning protocol without entry in the incentive history is skipped: the aggregation
  gives the same result as on the list of winners without it, and it does not fail.
\<close>

theorem missing_protocol_skipped:
  assumes "protocols d p = None" and "winners (voteData d) = ws1 @ p # ws2"
  shows "claimEffect tA b d st
           = claimEffect tA b (d\<lparr>voteData := (voteData d)\<lparr>winners := ws1 @ ws2\<rparr>\<rparr>) st
         \<and> (\<exists>st'. claimEffect tA b d st = Inr st')"
proof
  show "claimEffect tA b d st
           = claimEffect tA b (d\<lparr>voteData := (voteData d)\<lparr>winners := ws1 @ ws2\<rparr>\<rparr>) st"
    using assms by (simp add: claimEffect_def Let_def winnersLoop_skip split: option.splits)
  show "\<exists>st'. claimEffect tA b d st = Inr st'" by (rule claimEffect_ok)
qed

theorem missing_protocol_skipped_witness:
  "protocols deps_ex ''0xP0'' = None
   \<and> winners (voteData deps_ex) = [''0xP1''] @ ''0xP0'' # [''0xP2'']
   \<and> claimEffect toAddress_ex None deps_ex state_initial = Inr state_ex
   \<and> claimEffect toAddress_ex None
        (deps_ex\<lparr>voteData := (voteData deps_ex)\<lparr>winners := [''0xP1''] @ [''0xP2'']\<rparr>\<rparr>)
        state_initial = Inr state_ex"
proof -
  have h1: "protocols deps_ex ''0xP0'' = None" by (simp add: deps_ex_def)
  have h2: "winners (voteData deps_ex) = [''0xP1''] @ ''0xP0'' # [''0xP2'']"
    by (simp add: deps_ex_def)
  show ?thesis
    using missing_protocol_skipped [OF h1 h2, of toAddress_ex None state_initial] h1 h2
      claimEffect_deps_ex
    by simp
qed

section \<open>The selection flag\<close>

text \<open>
  C9. When the aggregation runs, every record of the claimable set it stores is selected, so
  the total of the modal (over the selected records) is the total over all the records, the
  sum of their values.
\<close>

theorem fresh_claimable_all_selected:
  assumes "raw (totalVotes (whitelistedLST d)) \<noteq> 0" and "claimedIncentives d = Some cl"
  shows "\<exists>st'. claimEffect tA b d st = Inr st'
     \<and> (\<forall>r\<in>set (claimableIncentive st'). isSelected r)
     \<and> totalToClaim_modal (claimableIncentive st') = totalToClaim (claimableIncentive st')
     \<and> totalToClaim_modal (claimableIncentive st')
         = sum_list (map value_cd (claimableIncentive st'))"
proof -
  from claimEffect_computes [OF assms, of tA b st] obtain acc where
    w: "winnersLoop tA b (address d) (votesUsed (voteData d)) (totalVotes (whitelistedLST d))
          cl (protocols d) (winners (voteData d)) ([], 0) = Inr acc"
    and e: "claimEffect tA b d st
          = Inr \<lparr>claimableIncentive = fst acc, totalIncentiveValue = snd acc\<rparr>"
    by blast
  have s: "\<forall>r\<in>set (fst acc). isSelected r"
  proof
    fix r assume "r \<in> set (fst acc)"
    with winnersLoop_origin [OF w] obtain p inc v a where
      "r = claimDetails tA b (address d) p inc v a"
      by blast
    then show "isSelected r" by (simp add: claimDetails_def)
  qed
  then have f: "filter isSelected (fst acc) = fst acc" by simp
  have "totalToClaim_modal (fst acc) = totalToClaim (fst acc)"
    by (simp add: totalToClaim_modal_def totalToClaim_def f)
  then show ?thesis using e s by (simp add: totalToClaim_sum)
qed

theorem fresh_claimable_all_selected_witness:
  "raw (totalVotes (whitelistedLST deps_ex)) \<noteq> 0
   \<and> claimedIncentives deps_ex = Some [\<lparr>id_claimed = ''0xP1-0xT2-0xU''\<rparr>]
   \<and> (\<exists>st'. claimEffect toAddress_ex None deps_ex state_initial = Inr st'
       \<and> map isSelected (claimableIncentive st') = [True, True]
       \<and> totalToClaim_modal (claimableIncentive st') = 260)"
proof -
  have h1: "raw (totalVotes (whitelistedLST deps_ex)) \<noteq> 0"
    by (simp add: deps_ex_def totalVotes_def toNormalizedBN_def votes_or_0_def)
  have h2: "claimedIncentives deps_ex = Some [\<lparr>id_claimed = ''0xP1-0xT2-0xU''\<rparr>]"
    by (simp add: deps_ex_def)
  show ?thesis
    using fresh_claimable_all_selected [OF h1 h2, of toAddress_ex None state_initial] h1 h2
    by (simp add: claimEffect_deps_ex state_ex_def claim_ex_def totalToClaim_modal_def)
qed

section \<open>The batch of the claim\<close>

text \<open>
  C6. The batch handed to the multicall action is made of the calls of the selected
  incentives, in the order of the claimable list: an incentive that is selected contributes
  its call in front of the calls of the incentives after it, one that is not selected
  contributes nothing. The batch has as many calls as there are selected incentives.
\<close>

theorem claim_batch_selected_only:
  "multicallData (onClaim tA b []) = []
   \<and> multicallData (onClaim tA b (c # cs))
       = (if isSelected c then multicall_cd c # multicallData (onClaim tA b cs)
          else multicallData (onClaim tA b cs))
   \<and> multicallData (onClaim tA b (cs @ cs'))
       = multicallData (onClaim tA b cs) @ multicallData (onClaim tA b cs')
   \<and> length (multicallData (onClaim tA b cs)) = length (filter isSelected cs)
   \<and> set (multicallData (onClaim tA b cs)) = multicall_cd ` {c \<in> set cs. isSelected c}"
  by (simp add: onClaim_def)

theorem claim_batch_selected_only_witness:
  "multicallData (onClaim toAddress_ex None
       [claim_ex ''0xP1'' ''0xT1'' 250 \<lparr>raw = 2, normalized = 2\<rparr> True,
        claim_ex ''0xP1'' ''0xT2'' 50 \<lparr>raw = 7, normalized = 7\<rparr> False,
        claim_ex ''0xP2'' ''0xT3'' 10 \<lparr>raw = 3, normalized = 3\<rparr> True])
     = [\<lparr>target = ''0x0'',
         callData = EncodeFunctionData ''claim_incentive'' [''0xP1'', ''0xT1'', ''0xU'']\<rparr>,
        \<lparr>target = ''0x0'',
         callData = EncodeFunctionData ''claim_incentive'' [''0xP2'', ''0xT3'', ''0xU'']\<rparr>]"
proof -
  have s: "isSelected (claim_ex ''0xP1'' ''0xT1'' 250 \<lparr>raw = 2, normalized = 2\<rparr> True)"
    "\<not> isSelected (claim_ex ''0xP1'' ''0xT2'' 50 \<lparr>raw = 7, normalized = 7\<rparr> False)"
    "isSelected (claim_ex ''0xP2'' ''0xT3'' 10 \<lparr>raw = 3, normalized = 3\<rparr> True)"
    by (simp_all add: claim_ex_def)
  have m: "multicall_cd (claim_ex p t v a sel)
      = \<lparr>target = ''0x0'', callData = EncodeFunctionData ''claim_incentive'' [p, t, ''0xU'']\<rparr>"
    for p t v a sel
    by (simp add: claim_ex_def)
  note r = claim_batch_selected_only [of toAddress_ex None]
  show ?thesis
    by (simp only: r [THEN conjunct2, THEN conjunct1] r [THEN conjunct1] s m if_True if_False)
qed

section \<open>Ticking a checkbox\<close>

text \<open>
  C10. \<open>onUpdateIncentive\<close> leaves a list without record of the id as it is. In a list
  with such a record, it changes the first record of that id, and of this record the
  selection flag only; the length and every other record are kept.
\<close>

theorem onUpdateIncentive_frame:
  "(i \<notin> id_cd ` set cs \<longrightarrow> onUpdateIncentive i sel cs = cs)
   \<and> (i \<in> id_cd ` set cs \<longrightarrow>
        (\<exists>k<length cs. id_cd (cs ! k) = i \<and> (\<forall>j<k. id_cd (cs ! j) \<noteq> i)
           \<and> length (onUpdateIncentive i sel cs) = length cs
           \<and> onUpdateIncentive i sel cs ! k = (cs ! k)\<lparr>isSelected := sel\<rparr>
           \<and> (\<forall>j<length cs. j \<noteq> k \<longrightarrow> onUpdateIncentive i sel cs ! j = cs ! j)))"
proof (intro conjI impI)
  assume "i \<notin> id_cd ` set cs"
  then have "findIndex (\<lambda>item. id_cd item = i) cs = None"
    by (auto simp: findIndex_None_conv)
  then show "onUpdateIncentive i sel cs = cs" by (simp add: onUpdateIncentive_def)
next
  assume "i \<in> id_cd ` set cs"
  then have "findIndex (\<lambda>item. id_cd item = i) cs \<noteq> None"
    by (auto simp: findIndex_None_conv)
  then obtain k where k: "findIndex (\<lambda>item. id_cd item = i) cs = Some k" by auto
  from findIndex_Some [OF k] have
    f: "k < length cs" "id_cd (cs ! k) = i" "\<forall>j<k. id_cd (cs ! j) \<noteq> i"
    by simp_all
  have u: "onUpdateIncentive i sel cs = cs[k := (cs ! k)\<lparr>isSelected := sel\<rparr>]"
    using k by (simp add: onUpdateIncentive_def)
  have "length (onUpdateIncentive i sel cs) = length cs" by (simp add: u)
  moreover have "onUpdateIncentive i sel cs ! k = (cs ! k)\<lparr>isSelected := sel\<rparr>"
    using f(1) by (simp add: u)
  moreover have "\<forall>j<length cs. j \<noteq> k \<longrightarrow> onUpdateIncentive i sel cs ! j = cs ! j"
    by (simp add: u)
  ultimately show "\<exists>k<length cs. id_cd (cs ! k) = i \<and> (\<forall>j<k. id_cd (cs ! j) \<noteq> i)
           \<and> length (onUpdateIncentive i sel cs) = length cs
           \<and> onUpdateIncentive i sel cs ! k = (cs ! k)\<lparr>isSelected := sel\<rparr>
           \<and> (\<forall>j<length cs. j \<noteq> k \<longrightarrow> onUpdateIncentive i sel cs ! j = cs ! j)"
    using f by blast
qed

theorem onUpdateIncentive_frame_witness:
  "''0xP9-0xT1-0xU'' \<notin> id_cd ` set (claimableIncentive state_ex)
   \<and> onUpdateIncentive ''0xP9-0xT1-0xU'' False (claimableIncentive state_ex)
       = claimableIncentive state_ex
   \<and> ''0xP2-0xT3-0xU'' \<in> id_cd ` set (claimableIncentive state_ex)
   \<and> length (onUpdateIncentive ''0xP2-0xT3-0xU'' False (claimableIncentive state_ex))
       = length (claimableIncentive state_ex)
   \<and> onUpdateIncentive ''0xP2-0xT3-0xU'' False (claimableIncentive state_ex)
       = [claim_ex ''0xP1'' ''0xT1'' 250 \<lparr>raw = 2 * 10 ^ 18, normalized = 2\<rparr> True,
          claim_ex ''0xP2'' ''0xT3'' 10 \<lparr>raw = 250000, normalized = 1 / 4000000000000\<rparr> False]"
proof -
  have h1: "''0xP9-0xT1-0xU'' \<notin> id_cd ` set (claimableIncentive state_ex)"
    by (simp add: state_ex_def claim_ex_def)
  have h2: "''0xP2-0xT3-0xU'' \<in> id_cd ` set (claimableIncentive state_ex)"
    by (simp add: state_ex_def claim_ex_def)
  have e: "onUpdateIncentive ''0xP2-0xT3-0xU'' False (claimableIncentive state_ex)
       = [claim_ex ''0xP1'' ''0xT1'' 250 \<lparr>raw = 2 * 10 ^ 18, normalized = 2\<rparr> True,
          claim_ex ''0xP2'' ''0xT3'' 10 \<lparr>raw = 250000, normalized = 1 / 4000000000000\<rparr> False]"
    by (simp add: onUpdateIncentive_def state_ex_def claim_ex_def)
  from onUpdateIncentive_frame [of "''0xP9-0xT1-0xU''" "claimableIncentive state_ex" False] h1
  have n: "onUpdateIncentive ''0xP9-0xT1-0xU'' False (claimableIncentive state_ex)
       = claimableIncentive state_ex"
    by blast
  from onUpdateIncentive_frame [of "''0xP2-0xT3-0xU''" "claimableIncentive state_ex" False] h2
  have l: "length (onUpdateIncentive ''0xP2-0xT3-0xU'' False (claimableIncentive state_ex))
       = length (claimableIncentive state_ex)"
    by blast
  show ?thesis using h1 h2 e n l by simp
qed


section \<open>The tab of the query\<close>

lemma split_no_sep: "c \<notin> set s \<Longrightarrow> split c s = [s]"
  by (induction s) auto

lemma split_at_sep: "c \<notin> set a \<Longrightarrow> split c (a @ c # rest) = a # split c rest"
  by (induction a) auto

text \<open>
  For a path whose query is one parameter, \<open>path?key=v\<close>, the tab shown first is the tab
  whose slug is \<open>v\<close> in lower case, and the Deposit tab when no slug is; a path without query
  shows the Deposit tab.
\<close>

lemma initialTab_single_parameter:
  assumes "CHR ''?'' \<notin> set path"
    and "CHR ''?'' \<notin> set key" and "CHR ''='' \<notin> set key"
    and "CHR ''?'' \<notin> set v" and "CHR ''='' \<notin> set v"
  shows "initialTab (path @ ''?'' @ key @ ''='' @ v) =
     (if toLowerCase v = ''deposit''
        then \<lparr>value_tab = 0, label = ''Deposit'', slug = ''deposit''\<rparr>
      else if toLowerCase v = ''withdraw''
        then \<lparr>value_tab = 1, label = ''Withdraw'', slug = ''withdraw''\<rparr>
      else if toLowerCase v = ''stake-unstake''
        then \<lparr>value_tab = 2, label = ''Stake/Unstake'', slug = ''stake-unstake''\<rparr>
      else if toLowerCase v = ''swap''
        then \<lparr>value_tab = 3, label = ''Swap'', slug = ''swap''\<rparr>
      else \<lparr>value_tab = 0, label = ''Deposit'', slug = ''deposit''\<rparr>)
   \<and> initialTab path = \<lparr>value_tab = 0, label = ''Deposit'', slug = ''deposit''\<rparr>"
proof
  have q: "CHR ''?'' \<notin> set (key @ CHR ''='' # v)" using assms by simp
  have s1: "split CHR ''?'' (path @ CHR ''?'' # key @ CHR ''='' # v) = [path, key @ CHR ''='' # v]"
    using split_at_sep [OF assms(1), of "key @ CHR ''='' # v"] split_no_sep [OF q] by simp
  have s2: "split CHR ''='' (key @ CHR ''='' # v) = [key, v]"
    using split_at_sep [OF assms(3), of v] split_no_sep [OF assms(5)] by simp
  have m: "mountEffect (path @ CHR ''?'' # key @ CHR ''='' # v) t =
      (if v \<noteq> [] then
         case findIndex (\<lambda>tab. slug tab = toLowerCase v) tabs of
           None \<Rightarrow> t
         | Some tabValue \<Rightarrow> tabs ! tabValue
       else t)" for t
    by (simp add: mountEffect_def s1 s2 at_index_def)
  have e: "toLowerCase [] = []" by (simp add: toLowerCase_def)
  show "initialTab (path @ ''?'' @ key @ ''='' @ v) =
     (if toLowerCase v = ''deposit''
        then \<lparr>value_tab = 0, label = ''Deposit'', slug = ''deposit''\<rparr>
      else if toLowerCase v = ''withdraw''
        then \<lparr>value_tab = 1, label = ''Withdraw'', slug = ''withdraw''\<rparr>
      else if toLowerCase v = ''stake-unstake''
        then \<lparr>value_tab = 2, label = ''Stake/Unstake'', slug = ''stake-unstake''\<rparr>
      else if toLowerCase v = ''swap''
        then \<lparr>value_tab = 3, label = ''Swap'', slug = ''swap''\<rparr>
      else \<lparr>value_tab = 0, label = ''Deposit'', slug = ''deposit''\<rparr>)"
  proof (cases "v = []")
    case True
    then show ?thesis using m [of "tabs ! 0"] by (simp add: initialTab_def e tabs_def)
  next
    case False
    then show ?thesis by (simp add: initialTab_def m tabs_def)
  qed
next
  show "initialTab path = \<lparr>value_tab = 0, label = ''Deposit'', slug = ''deposit''\<rparr>"
    by (simp add: initialTab_def mountEffect_def split_no_sep [OF assms(1)] at_index_def tabs_def)
qed

lemma toLowerCase_Swap: "toLowerCase ''Swap'' = ''swap''"
  by code_simp

lemma initialTab_single_parameter_example:
  "initialTab ''/?action=Swap'' = \<lparr>value_tab = 3, label = ''Swap'', slug = ''swap''\<rparr>"
proof -
  have h1: "CHR ''?'' \<notin> set ''/''" by simp
  have h2: "CHR ''?'' \<notin> set ''action''" by simp
  have h3: "CHR ''='' \<notin> set ''action''" by simp
  have h4: "CHR ''?'' \<notin> set ''Swap''" by simp
  have h5: "CHR ''='' \<notin> set ''Swap''" by simp
  show ?thesis
    using initialTab_single_parameter [OF h1 h2 h3 h4 h5] by (simp add: toLowerCase_Swap)
qed

text \<open>
  C8. The query parameter does not select the tab when the query holds another parameter or
  the path ends in a fragment. The mount effect takes the text between the first and the
  second \<open>=\<close> after the \<open>?\<close> as the value, whatever the key is. The click handler of a tab
  writes \<open>action\<close> beside the other parameters of the query, so the page itself produces
  paths such as \<open>/?utm=1&action=swap\<close>: there, and for \<open>/?action=swap&utm=1\<close> and
  \<open>/?action=swap#top\<close>, the tab shown first is Deposit and not Swap, although the value of
  \<open>action\<close> is the slug of the Swap tab. For \<open>/?action=swap\<close> alone it is Swap.
\<close>

theorem initial_tab_other_parameter:
  "initialTab ''/?utm=1&action=swap'' = \<lparr>value_tab = 0, label = ''Deposit'', slug = ''deposit''\<rparr>
   \<and> initialTab ''/?action=swap&utm=1''
       = \<lparr>value_tab = 0, label = ''Deposit'', slug = ''deposit''\<rparr>
   \<and> initialTab ''/?action=swap#top''
       = \<lparr>value_tab = 0, label = ''Deposit'', slug = ''deposit''\<rparr>
   \<and> initialTab ''/?action=swap'' = \<lparr>value_tab = 3, label = ''Swap'', slug = ''swap''\<rparr>"
  by code_simp

end
